theory Spec2Isabelle
  imports Main
begin

section \<open>The continuation-passing stage chain of models/pattern/chain.go\<close>

text \<open>
  The Go file defines a \<open>Chain\<close> of stage functions. A stage function receives the plan
  (a pointer), an error value and a continuation \<open>next\<close>; it decides itself whether and
  how often it calls \<open>next\<close>. \<open>Add\<close> wraps every stage function in a closure that reads
  its continuation from the slot list \<open>ch.nexts\<close> when it is called, and patches the slot
  of the previous stage. \<open>Process\<close> calls the first wrapper.

  The embedding is a state-passing one.
  \<^item> The plan is a reference of type \<open>'p\<close> (the type \<open>Plan\<close> is declared in another file of
    the package, and the chain never looks into it); what it points to, and every variable
    captured by the caller's closures, lives in a world of type \<open>'w\<close>.
  \<^item> A Go \<open>error\<close> is \<open>'e option\<close>, \<open>None\<close> being \<open>nil\<close>.
  \<^item> A panic is a value of type \<open>fault\<close>: dereferencing a nil pointer, calling a nil
    function value, indexing a slice out of range. Two more values stand for a call that
    does not return: \<open>Deadlock\<close> (locking a mutex that is already held, with nobody left
    to release it) and \<open>OutOfFuel\<close> (the bound on nested calls of the model is used up).
\<close>

datatype fault = NilPointerDereference | NilFunctionCall | IndexOutOfRange | Deadlock | OutOfFuel

subsection \<open>Stage functions\<close>

text \<open>
  What one call of a stage function does, as a tree: the function works on the world and
  then either returns (\<open>Return w\<close>, leaving world \<open>w\<close>), or calls the continuation it was
  handed with a plan and an error in world \<open>w\<close> (\<open>Next plan err w k\<close>) and goes on with
  \<open>k w'\<close> once that call has returned in world \<open>w'\<close>. A stage function interacts with the
  chain through that continuation only: it does not call \<open>Add\<close>, \<open>Process\<close> or \<open>Clear\<close>
  of the chain it runs in.
\<close>

datatype ('p, 'e, 'w) body =
    Return 'w
  | Next 'p "'e option" 'w "'w \<Rightarrow> ('p, 'e, 'w) body"

text \<open>
  \<^verbatim>\<open>type ChainStageFunction func(plan *Plan, err error, next ChainStageNextFunction)\<close>

  The third argument of the model says whether \<open>next\<close> is a function (\<open>True\<close>) or nil
  (\<open>False\<close>), which is all a stage function can find out about it without calling it.
\<close>

type_synonym ('p, 'e, 'w) ChainStageFunction =
  "'p \<Rightarrow> 'e option \<Rightarrow> bool \<Rightarrow> 'w \<Rightarrow> ('p, 'e, 'w) body"

text \<open>
  \<^verbatim>\<open>type ChainStageNextFunction func(plan *Plan, err error)\<close>

  The only function values of this type that the file creates are the closures \<open>stageFn\<close>
  of \<open>Add\<close>. Such a closure captures the stage function \<open>fn\<close>, the index
  \<open>nextIdxStageFn\<close> and the chain \<open>ch\<close> itself; the chain is the one the closure is
  called in, so the model keeps the first two. A nil function value is \<open>None\<close>.
\<close>

datatype ('p, 'e, 'w) ChainStageNextFunction =
  StageFn "('p, 'e, 'w) ChainStageFunction" nat

type_synonym ('p, 'e, 'w) ChainStages = "('p, 'e, 'w) ChainStageNextFunction option list"

text \<open>
  \<^verbatim>\<open>type Chain struct { stages ChainStages; nexts ChainStages; mu *sync.Mutex }\<close>

  The field \<open>mu\<close> is a pointer: \<open>None\<close> is the nil pointer, \<open>Some b\<close> a mutex that is
  held (\<open>b = True\<close>) or free (\<open>b = False\<close>).
\<close>

record ('p, 'e, 'w) Chain =
  stages :: "('p, 'e, 'w) ChainStages"
  nexts :: "('p, 'e, 'w) ChainStages"
  mu :: "bool option"

text \<open>
  \<open>(*sync.Mutex).Lock\<close>: on a nil pointer it panics, on a held mutex it blocks (for ever,
  in a run with one execution context), on a free mutex it takes it.
  \<open>(*sync.Mutex).Unlock\<close> is only ever run deferred after a \<open>Lock\<close> that returned.
\<close>

fun Lock :: "bool option \<Rightarrow> fault + bool option" where
  "Lock None = Inl NilPointerDereference"
| "Lock (Some True) = Inl Deadlock"
| "Lock (Some False) = Inr (Some True)"

fun Unlock :: "bool option \<Rightarrow> bool option" where
  "Unlock None = None"
| "Unlock (Some b) = Some False"

subsection \<open>Construction\<close>

text \<open>
  \<^verbatim>\<open>
  func CreateChain() *Chain {
      return &Chain{ stages: make(ChainStages, 0), nexts: make(ChainStages, 0) }
  }\<close>
  The composite literal names two of the three fields; \<open>mu\<close> gets its zero value, nil.
\<close>

definition CreateChain :: "('p, 'e, 'w) Chain" where
  "CreateChain = \<lparr>stages = [], nexts = [], mu = None\<rparr>"

text \<open>
  \<^verbatim>\<open>
  func (ch *Chain) Add(fn ChainStageFunction) *Chain {
      ch.mu.Lock()
      defer ch.mu.Unlock()
      ch.nexts = append(ch.nexts, nil)
      nextIdxStageFn := len(ch.nexts) - 1
      stageFn := func(plan *Plan, err error) { fn(plan, err, ch.nexts[nextIdxStageFn]) }
      if nextIdxStageFn > 0 { ch.nexts[nextIdxStageFn-1] = stageFn }
      ch.stages = append(ch.stages, stageFn)
      return ch
  }\<close>
  The model returns the fault, if any, and the chain as the call leaves it.
\<close>

definition Add ::
  "('p, 'e, 'w) ChainStageFunction \<Rightarrow> ('p, 'e, 'w) Chain \<Rightarrow> fault option \<times> ('p, 'e, 'w) Chain"
where
  "Add fn ch =
    (case Lock (mu ch) of
       Inl f \<Rightarrow> (Some f, ch)
     | Inr m \<Rightarrow>
        (let ch1 = ch\<lparr>mu := m\<rparr>;
             ch2 = ch1\<lparr>nexts := nexts ch1 @ [None]\<rparr>;
             nextIdxStageFn = length (nexts ch2) - 1;
             stageFn = StageFn fn nextIdxStageFn;
             ch3 = (if nextIdxStageFn > 0
                    then ch2\<lparr>nexts := (nexts ch2)[nextIdxStageFn - 1 := Some stageFn]\<rparr>
                    else ch2);
             ch4 = ch3\<lparr>stages := stages ch3 @ [Some stageFn]\<rparr>
         in (None, ch4\<lparr>mu := Unlock (mu ch4)\<rparr>)))"

text \<open>
  \<^verbatim>\<open>
  func (ch *Chain) Clear() *Chain {
      ch.stages = []ChainStageNextFunction{}
      ch.nexts = []ChainStageNextFunction{}
      return ch
  }\<close>
\<close>

definition Clear :: "('p, 'e, 'w) Chain \<Rightarrow> ('p, 'e, 'w) Chain" where
  "Clear ch = ch\<lparr>stages := [], nexts := []\<rparr>"

subsection \<open>Execution\<close>

text \<open>
  A run threads the world and, beside it, the list of stage invocations made so far:
  an entry \<open>(i, plan, err)\<close> says that the stage function captured by the wrapper with
  index \<open>i\<close> was called with \<open>plan\<close> and \<open>err\<close>. The list is an observer of the run, not
  data of the program. A fault ends the run; the world and the invocations made up to
  that point stay.
\<close>

type_synonym ('p, 'e) event = "nat \<times> 'p \<times> 'e option"

type_synonym ('p, 'e, 'w) state = "'w \<times> ('p, 'e) event list"

type_synonym ('p, 'e, 'w) callee = "'p \<Rightarrow> 'e option \<Rightarrow> ('p, 'e, 'w) state \<Rightarrow> fault option \<times> ('p, 'e, 'w) state"

text \<open>
  Running the body of a stage function whose argument \<open>next\<close> is \<open>nxt\<close>: calling a nil
  \<open>next\<close> panics, a panic in the callee goes through the caller, and otherwise the
  caller goes on where the callee returned.
\<close>

primrec exec ::
  "('p, 'e, 'w) body \<Rightarrow> ('p, 'e, 'w) callee option \<Rightarrow> ('p, 'e) event list
    \<Rightarrow> fault option \<times> ('p, 'e, 'w) state"
where
  "exec (Return w) nxt tr = (None, (w, tr))"
| "exec (Next plan err w k) nxt tr =
    (case nxt of
       None \<Rightarrow> (Some NilFunctionCall, (w, tr))
     | Some callee \<Rightarrow>
        (case callee plan err (w, tr) of
           (Some f, s) \<Rightarrow> (Some f, s)
         | (None, (w', tr')) \<Rightarrow> exec (k w') nxt tr'))"

text \<open>
  Calling a wrapper \<open>stageFn\<close> in chain \<open>ch\<close>:
  \<^verbatim>\<open>func(plan *Plan, err error) { fn(plan, err, ch.nexts[nextIdxStageFn]) }\<close>
  The slot is read when the wrapper is called, from the slot list the chain has then; an
  index beyond that list panics before \<open>fn\<close> is called. The first argument bounds the
  depth of nested wrapper calls.
\<close>

primrec invoke ::
  "nat \<Rightarrow> ('p, 'e, 'w) Chain \<Rightarrow> ('p, 'e, 'w) ChainStageNextFunction \<Rightarrow> ('p, 'e, 'w) callee"
where
  "invoke 0 ch c plan err s = (Some OutOfFuel, s)"
| "invoke (Suc fuel) ch c plan err s =
    (case c of StageFn fn nextIdxStageFn \<Rightarrow>
      (if nextIdxStageFn < length (nexts ch)
       then (let nxt = nexts ch ! nextIdxStageFn
             in exec (fn plan err (nxt \<noteq> None) (fst s))
                     (map_option (invoke fuel ch) nxt)
                     (snd s @ [(nextIdxStageFn, plan, err)]))
       else (Some IndexOutOfRange, s)))"

text \<open>
  \<^verbatim>\<open>
  func (ch *Chain) Process(plan *Plan) *Chain {
      ch.mu.Lock()
      defer ch.mu.Unlock()
      if len(ch.stages) > 0 { ch.stages[0](plan, nil) }
      return ch
  }\<close>
  The deferred \<open>Unlock\<close> also runs when a stage panics. The model returns the fault, if
  any, the chain and the state as the call leaves them.
\<close>

definition Process ::
  "nat \<Rightarrow> ('p, 'e, 'w) Chain \<Rightarrow> 'p \<Rightarrow> ('p, 'e, 'w) state
    \<Rightarrow> fault option \<times> ('p, 'e, 'w) Chain \<times> ('p, 'e, 'w) state"
where
  "Process fuel ch plan s =
    (case Lock (mu ch) of
       Inl f \<Rightarrow> (Some f, ch, s)
     | Inr m \<Rightarrow>
        (let ch1 = ch\<lparr>mu := m\<rparr>;
             (r, s') = (if length (stages ch1) > 0
                        then (case stages ch1 ! 0 of
                                None \<Rightarrow> (Some NilFunctionCall, s)
                              | Some c \<Rightarrow> invoke fuel ch1 c plan None s)
                        else (None, s))
         in (r, ch1\<lparr>mu := Unlock (mu ch1)\<rparr>, s')))"

text \<open>A caller's \<open>ch.Add(f1).Add(f2)...\<close>: the first fault ends it.\<close>

fun Adds ::
  "('p, 'e, 'w) ChainStageFunction list \<Rightarrow> ('p, 'e, 'w) Chain \<Rightarrow> fault option \<times> ('p, 'e, 'w) Chain"
where
  "Adds [] ch = (None, ch)"
| "Adds (fn # fns) ch =
    (case Add fn ch of
       (Some f, ch') \<Rightarrow> (Some f, ch')
     | (None, ch') \<Rightarrow> Adds fns ch')"

subsection \<open>Reading the result of a run\<close>

definition fault_of ::
  "fault option \<times> ('p, 'e, 'w) Chain \<times> ('p, 'e, 'w) state \<Rightarrow> fault option" where
  "fault_of r = fst r"

definition chain_of ::
  "fault option \<times> ('p, 'e, 'w) Chain \<times> ('p, 'e, 'w) state \<Rightarrow> ('p, 'e, 'w) Chain" where
  "chain_of r = fst (snd r)"

definition world_of ::
  "fault option \<times> ('p, 'e, 'w) Chain \<times> ('p, 'e, 'w) state \<Rightarrow> 'w" where
  "world_of r = fst (snd (snd r))"

definition trace_of ::
  "fault option \<times> ('p, 'e, 'w) Chain \<times> ('p, 'e, 'w) state \<Rightarrow> ('p, 'e) event list" where
  "trace_of r = snd (snd (snd r))"

text \<open>How often the stage with index \<open>i\<close> was invoked.\<close>

definition invocations :: "nat \<Rightarrow> ('p, 'e) event list \<Rightarrow> nat" where
  "invocations i tr = length (filter (\<lambda>ev. fst ev = i) tr)"

subsection \<open>Kinds of stage functions\<close>

text \<open>
  A stage function that calls its continuation unconditionally with the plan and the
  error it received: whatever its arguments and the world, the first thing it does with
  the chain is \<open>next(plan, err)\<close>. What it does once that call has returned is left open.
\<close>

definition forwards :: "('p, 'e, 'w) ChainStageFunction \<Rightarrow> bool" where
  "forwards fn \<longleftrightarrow>
     (\<forall>plan err b w. case fn plan err b w of
                        Return w' \<Rightarrow> False
                      | Next plan' err' w' k \<Rightarrow> plan' = plan \<and> err' = err)"

text \<open>
  The world in which a body makes its first call of the continuation, and the world that
  a row of such stage functions has reached when the last of them makes its call: each
  is applied to the plan, the error and the world that its predecessor passed on, and is
  told whether a stage follows it.
\<close>

primrec call_world :: "('p, 'e, 'w) body \<Rightarrow> 'w" where
  "call_world (Return w) = w"
| "call_world (Next plan err w k) = w"

fun forwarded_world :: "('p, 'e, 'w) ChainStageFunction list \<Rightarrow> 'p \<Rightarrow> 'e option \<Rightarrow> 'w \<Rightarrow> 'w" where
  "forwarded_world [] plan err w = w"
| "forwarded_world (fn # fns) plan err w =
     forwarded_world fns plan err (call_world (fn plan err (fns \<noteq> []) w))"

text \<open>A stage function that returns without calling its continuation.\<close>

definition halts :: "('p, 'e, 'w) ChainStageFunction \<Rightarrow> bool" where
  "halts fn \<longleftrightarrow>
     (\<forall>plan err b w. case fn plan err b w of
                        Return w' \<Rightarrow> True
                      | Next plan' err' w' k \<Rightarrow> False)"

text \<open>
  A body that calls the continuation exactly \<open>m\<close> times, with whatever plan and error,
  and then returns; a stage function all of whose bodies do so.
\<close>

primrec calls :: "nat \<Rightarrow> ('p, 'e, 'w) body \<Rightarrow> bool" where
  "calls 0 b = (case b of Return w \<Rightarrow> True | Next plan err w k \<Rightarrow> False)"
| "calls (Suc m) b =
     (case b of
        Return w \<Rightarrow> False
      | Next plan err w k \<Rightarrow> (\<forall>w'. calls m (k w')))"

definition calls_next :: "nat \<Rightarrow> ('p, 'e, 'w) ChainStageFunction \<Rightarrow> bool" where
  "calls_next m fn \<longleftrightarrow> (\<forall>plan err b w. calls m (fn plan err b w))"

subsection \<open>What the stage functions do to the world\<close>

text \<open>
  The side effects of a row of stage functions, read off the stage functions themselves,
  with no wrappers, slots or bound on nested calls: \<open>body_world nxt b\<close> is the world in
  which the body \<open>b\<close> returns when each of its calls of the continuation changes the
  world as \<open>nxt\<close> says, and \<open>world_after fns plan err w\<close> is the world in which the first
  stage function of \<open>fns\<close>, called with \<open>plan\<close> and \<open>err\<close> in world \<open>w\<close>, returns when its
  continuation is the rest of the row and a call of the continuation of the last stage
  function changes nothing. So the effect of the stage functions after a stage takes
  place once for each call of the continuation in the body of that stage.
\<close>

primrec body_world :: "('p \<Rightarrow> 'e option \<Rightarrow> 'w \<Rightarrow> 'w) \<Rightarrow> ('p, 'e, 'w) body \<Rightarrow> 'w" where
  "body_world nxt (Return w) = w"
| "body_world nxt (Next plan err w k) = body_world nxt (k (nxt plan err w))"

primrec world_after :: "('p, 'e, 'w) ChainStageFunction list \<Rightarrow> 'p \<Rightarrow> 'e option \<Rightarrow> 'w \<Rightarrow> 'w" where
  "world_after [] = (\<lambda>plan err w. w)"
| "world_after (fn # fns) =
     (\<lambda>plan err w. body_world (world_after fns) (fn plan err (fns \<noteq> []) w))"

subsection \<open>The shape of a chain built by \<open>Add\<close>\<close>

text \<open>
  \<open>wired fns ch\<close>: the stage list holds the wrappers of \<open>fns\<close> in order, wrapper \<open>i\<close>
  with index \<open>i\<close>, and slot \<open>i\<close> holds the wrapper of stage \<open>i + 1\<close>, the last slot nil.
\<close>

definition wired :: "('p, 'e, 'w) ChainStageFunction list \<Rightarrow> ('p, 'e, 'w) Chain \<Rightarrow> bool" where
  "wired fns ch \<longleftrightarrow>
     stages ch = map (\<lambda>i. Some (StageFn (fns ! i) i)) [0..<length fns]
   \<and> nexts ch = map (\<lambda>i. if Suc i < length fns then Some (StageFn (fns ! Suc i) (Suc i)) else None)
                    [0..<length fns]"

text \<open>
  The indices of the stages that a call of wrapper \<open>i\<close> invokes, in order, when the stage
  functions from \<open>i\<close> on call their continuations \<open>m # ms\<close> times.
\<close>

fun visits :: "nat list \<Rightarrow> nat \<Rightarrow> nat list" where
  "visits [] i = []"
| "visits (m # ms) i = i # concat (replicate m (visits ms (Suc i)))"

definition lengths_agree :: "('p, 'e, 'w) Chain \<Rightarrow> bool" where
  "lengths_agree ch \<longleftrightarrow> length (stages ch) = length (nexts ch)"

subsection \<open>Chains a caller can get to\<close>

text \<open>
  \<open>reachable c0 c\<close>: the chain is in state \<open>c\<close> after some calls of \<open>Add\<close>, \<open>Process\<close> and
  \<open>Clear\<close> on a chain that was in state \<open>c0\<close>, whether the calls returned or panicked.
\<close>

inductive reachable :: "('p, 'e, 'w) Chain \<Rightarrow> ('p, 'e, 'w) Chain \<Rightarrow> bool" where
  start: "reachable c0 c0"
| add: "reachable c0 c \<Longrightarrow> reachable c0 (snd (Add fn c))"
| process: "reachable c0 c \<Longrightarrow> reachable c0 (chain_of (Process fuel c plan s))"
| clear: "reachable c0 c \<Longrightarrow> reachable c0 (Clear c)"

subsection \<open>Sample chains and stage functions\<close>

text \<open>
  An empty chain with a mutex, as code of the package can write it
  (\<^verbatim>\<open>&Chain{mu: &sync.Mutex{}}\<close>), and three stage functions whose world is a counter: one that
  counts and calls \<open>next\<close>, one that counts and returns, one that calls \<open>next\<close> twice.
\<close>

definition free_chain :: "(unit, unit, nat) Chain" where
  "free_chain = \<lparr>stages = [], nexts = [], mu = Some False\<rparr>"

definition pass_stage :: "(unit, unit, nat) ChainStageFunction" where
  "pass_stage plan err b w = Next plan err (Suc w) Return"

definition stop_stage :: "(unit, unit, nat) ChainStageFunction" where
  "stop_stage plan err b w = Return (Suc w)"

text \<open>A stage function that counts and calls \<open>next\<close> with an error of its own.\<close>

definition fail_stage :: "(unit, unit, nat) ChainStageFunction" where
  "fail_stage plan err b w = Next plan (Some ()) (Suc w) Return"

definition twice_stage :: "(unit, unit, nat) ChainStageFunction" where
  "twice_stage plan err b w = Next plan err w (\<lambda>w'. Next plan err w' Return)"

text \<open>The run of a chain of two stages: one that calls \<open>next\<close> twice, one that counts and calls \<open>next\<close>.\<close>

definition twice_pass_run :: "fault option \<times> (unit, unit, nat) Chain \<times> (unit, unit, nat) state" where
  "twice_pass_run = Process 2 (snd (Adds [twice_stage, pass_stage] free_chain)) () (0, [])"

section \<open>The constructor leaves the mutex nil\<close>

lemma Add_nil_mu: "mu ch = None \<Longrightarrow> Add fn ch = (Some NilPointerDereference, ch)"
  by (simp add: Add_def)

lemma Process_nil_mu: "mu ch = None \<Longrightarrow> Process fuel ch plan s = (Some NilPointerDereference, ch, s)"
  by (simp add: Process_def)

text \<open>
  C3. The chain that \<open>CreateChain\<close> returns has a nil \<open>mu\<close>. \<open>Add\<close> and \<open>Process\<close> on it
  panic with a nil pointer dereference at their first statement: the chain is left as it
  was, no stage is added, no stage function is called and the world is untouched.
\<close>

theorem C3_CreateChain_nil_mutex:
  "mu (CreateChain :: ('p, 'e, 'w) Chain) = None
   \<and> Add fn (CreateChain :: ('p, 'e, 'w) Chain) = (Some NilPointerDereference, CreateChain)
   \<and> Process fuel (CreateChain :: ('p, 'e, 'w) Chain) plan s
        = (Some NilPointerDereference, CreateChain, s)"
  by (simp add: CreateChain_def Add_def Process_def)

section \<open>The mutex in a run with one execution context\<close>

text \<open>
  \<open>Add\<close> and \<open>Process\<close> take the mutex first and give it back when they leave; on a
  mutex that is held they block. The stages of \<open>Process\<close> run on the chain with the mutex
  held (lemma \<open>Process_free\<close> below). \<open>Clear\<close> neither reads nor writes the mutex.
\<close>

lemma Add_held: "mu ch = Some True \<Longrightarrow> Add fn ch = (Some Deadlock, ch)"
  by (simp add: Add_def)

lemma Process_held: "mu ch = Some True \<Longrightarrow> Process fuel ch plan s = (Some Deadlock, ch, s)"
  by (simp add: Process_def)

lemma Clear_mu: "mu (Clear ch) = mu ch"
  by (simp add: Clear_def)

section \<open>Chains built by \<open>Add\<close>\<close>

lemma Add_ok_iff: "fst (Add fn ch) = None \<longleftrightarrow> mu ch = Some False"
  by (cases "mu ch"; cases "the (mu ch)") (auto simp: Add_def Let_def)

lemma Add_free:
  "mu ch = Some False \<Longrightarrow>
   Add fn ch = (None, ch\<lparr>stages := stages ch @ [Some (StageFn fn (length (nexts ch)))],
                         nexts := (if nexts ch = [] then [None]
                                   else (nexts ch)[length (nexts ch) - 1 := Some (StageFn fn (length (nexts ch)))] @ [None])\<rparr>)"
  by (auto simp: Add_def Let_def list_update_append)

lemma Add_wired:
  assumes "wired fns ch" "Add fn ch = (None, ch')"
  shows "wired (fns @ [fn]) ch' \<and> mu ch' = mu ch"
proof -
  from assms(2) have m: "mu ch = Some False" using Add_ok_iff[of fn ch] by simp
  have n: "length (nexts ch) = length fns" using assms(1) by (simp add: wired_def)
  from Add_free[OF m, of fn] assms(2)
  have ch': "ch' = ch\<lparr>stages := stages ch @ [Some (StageFn fn (length fns))],
                         nexts := (if nexts ch = [] then [None]
                                   else (nexts ch)[length fns - 1 := Some (StageFn fn (length fns))] @ [None])\<rparr>"
    by (simp add: n)
  have s: "stages ch' = map (\<lambda>i. Some (StageFn ((fns @ [fn]) ! i) i)) [0..<length (fns @ [fn])]"
    using assms(1) by (simp add: ch' wired_def nth_append)
  have x: "nexts ch' = map (\<lambda>i. if Suc i < length (fns @ [fn]) then Some (StageFn ((fns @ [fn]) ! Suc i) (Suc i)) else None)
                    [0..<length (fns @ [fn])]"
    using assms(1) n by (intro nth_equalityI) (auto simp: ch' wired_def nth_append nth_list_update less_Suc_eq)
  show ?thesis using s x m by (simp add: wired_def ch')
qed

lemma wired_Nil: "stages ch = [] \<Longrightarrow> nexts ch = [] \<Longrightarrow> wired [] ch"
  by (simp add: wired_def)

lemma Adds_wired_from:
  "wired fs ch0 \<Longrightarrow> Adds gs ch0 = (None, ch) \<Longrightarrow> wired (fs @ gs) ch \<and> mu ch = mu ch0"
proof (induction gs arbitrary: fs ch0)
  case Nil
  then show ?case by simp
next
  case (Cons g gs)
  from Cons.prems(2) obtain ch1 where a: "Add g ch0 = (None, ch1)" and b: "Adds gs ch1 = (None, ch)"
    by (auto split: prod.splits option.splits)
  from Add_wired[OF Cons.prems(1) a] have "wired (fs @ [g]) ch1" "mu ch1 = mu ch0" by simp_all
  with Cons.IH[of "fs @ [g]" ch1] b show ?case by simp
qed

lemma Adds_wired:
  "stages ch0 = [] \<Longrightarrow> nexts ch0 = [] \<Longrightarrow> Adds fns ch0 = (None, ch) \<Longrightarrow> wired fns ch \<and> mu ch = mu ch0"
  using Adds_wired_from[of "[]" ch0 fns ch] by (simp add: wired_Nil)

lemma Adds_mu: "Adds fns ch0 = (None, ch) \<Longrightarrow> fns \<noteq> [] \<Longrightarrow> mu ch0 = Some False"
  using Add_ok_iff[of "hd fns" ch0] by (cases fns) (auto split: prod.splits option.splits)

lemma Add_keeps_mu: "mu (snd (Add fn ch)) = mu ch"
  by (cases "mu ch"; cases "the (mu ch)") (auto simp: Add_def Let_def)

lemma Adds_total: "mu ch0 = Some False \<Longrightarrow> fst (Adds fns ch0) = None"
proof (induction fns arbitrary: ch0)
  case Nil
  then show ?case by simp
next
  case (Cons g gs)
  obtain ch1 where a: "Add g ch0 = (None, ch1)"
    using Add_ok_iff[of g ch0] Cons.prems by (cases "Add g ch0") auto
  have "mu ch1 = Some False" using Add_keeps_mu[of g ch0] a Cons.prems by simp
  with Cons.IH[of ch1] a show ?case by simp
qed

lemma wired_length: "wired fns ch \<Longrightarrow> length (stages ch) = length fns \<and> length (nexts ch) = length fns"
  by (simp add: wired_def)

lemma wired_stages_nth: "wired fns ch \<Longrightarrow> i < length fns \<Longrightarrow> stages ch ! i = Some (StageFn (fns ! i) i)"
  by (simp add: wired_def)

lemma wired_nexts_nth:
  "wired fns ch \<Longrightarrow> i < length fns \<Longrightarrow>
   nexts ch ! i = (if Suc i < length fns then Some (StageFn (fns ! Suc i) (Suc i)) else None)"
  by (simp add: wired_def)

lemma invoke_wired:
  assumes "wired fns ch" "i < length fns"
  shows "invoke (Suc fuel) ch (StageFn (fns ! i) i) plan err (w, tr) =
         exec ((fns ! i) plan err (Suc i < length fns) w)
              (if Suc i < length fns then Some (invoke fuel ch (StageFn (fns ! Suc i) (Suc i))) else None)
              (tr @ [(i, plan, err)])"
  using assms wired_length[OF assms(1)] by (simp add: wired_nexts_nth[OF assms])

lemma invoke_fuel:
  assumes "wired fns ch"
  shows "i < length fns \<Longrightarrow> length fns - i \<le> fuel \<Longrightarrow>
         invoke fuel ch (StageFn (fns ! i) i) = invoke (length fns - i) ch (StageFn (fns ! i) i)"
proof (induction "length fns - i" arbitrary: i fuel)
  case 0
  then show ?case by simp
next
  case (Suc d)
  from Suc.prems Suc.hyps(2) obtain f where fuel: "fuel = Suc f" by (cases fuel) auto
  from Suc.hyps(2) have n: "length fns - i = Suc d" by simp
  show ?case
  proof (cases "Suc i < length fns")
    case True
    have d: "d = length fns - Suc i" using n by simp
    have "invoke f ch (StageFn (fns ! Suc i) (Suc i)) = invoke d ch (StageFn (fns ! Suc i) (Suc i))"
      using Suc.hyps(1)[of "Suc i" f] True Suc.prems fuel d by simp
    then show ?thesis
      unfolding n fuel using True
      by (intro ext) (simp add: invoke_wired[OF assms Suc.prems(1)] split_paired_all del: invoke.simps)
  next
    case False
    then show ?thesis
      unfolding n fuel
      by (intro ext) (simp add: invoke_wired[OF assms Suc.prems(1)] split_paired_all del: invoke.simps)
  qed
qed

lemma Add_snd: "mu ch = Some False \<Longrightarrow> Add fn ch = (None, snd (Add fn ch))"
  using Add_ok_iff[of fn ch] by (simp add: prod_eq_iff)

lemma Adds_keeps_mu: "Adds fns ch0 = (None, ch) \<Longrightarrow> mu ch = mu ch0"
proof (induction fns arbitrary: ch0)
  case Nil
  then show ?case by simp
next
  case (Cons g gs)
  from Cons.prems obtain ch1 where a: "Add g ch0 = (None, ch1)" and b: "Adds gs ch1 = (None, ch)"
    by (auto split: prod.splits option.splits)
  from Add_keeps_mu[of g ch0] a have "mu ch1 = mu ch0" by simp
  with Cons.IH[OF b] show ?case by simp
qed

lemma Add_free_nonempty:
  "mu ch = Some False \<Longrightarrow> nexts ch \<noteq> [] \<Longrightarrow>
   Add fn ch = (None, ch\<lparr>stages := stages ch @ [Some (StageFn fn (length (nexts ch)))],
                         nexts := (nexts ch)[length (nexts ch) - 1 := Some (StageFn fn (length (nexts ch)))] @ [None]\<rparr>)"
  by (simp add: Add_free)

subsection \<open>The samples\<close>

lemma forwards_pass: "forwards pass_stage"
  by (simp add: forwards_def pass_stage_def)

lemma halts_stop: "halts stop_stage"
  by (simp add: halts_def stop_stage_def)

lemma free_chain_simps: "stages free_chain = []" "nexts free_chain = []" "mu free_chain = Some False"
  by (simp_all add: free_chain_def)

lemma Adds_free_chain: "Adds fns free_chain = (None, snd (Adds fns free_chain))"
  using Adds_total[of free_chain fns] by (simp add: free_chain_def prod_eq_iff)

section \<open>Order of invocation\<close>

lemma forwardsD:
  "forwards fn \<Longrightarrow> \<exists>w' k. fn plan err b w = Next plan err w' k"
  unfolding forwards_def
  by (erule allE[of _ plan], erule allE[of _ err], erule allE[of _ b], erule allE[of _ w])
     (cases "fn plan err b w"; simp)

lemma run_forwards:
  assumes "wired fns ch" "\<forall>fn \<in> set fns. forwards fn"
  shows "i < length fns \<Longrightarrow> length fns - i \<le> fuel \<Longrightarrow>
         invoke fuel ch (StageFn (fns ! i) i) plan err (w, tr)
           = (Some NilFunctionCall,
              (forwarded_world (drop i fns) plan err w, tr @ map (\<lambda>j. (j, plan, err)) [i..<length fns]))"
proof (induction "length fns - i" arbitrary: i fuel w tr)
  case 0
  then show ?case by simp
next
  case (Suc d)
  from Suc.prems Suc.hyps(2) obtain f where fuel: "fuel = Suc f" by (cases fuel) auto
  from assms(2) Suc.prems(1) have "forwards (fns ! i)" by simp
  from forwardsD[OF this] obtain w1 k
    where body: "(fns ! i) plan err (Suc i < length fns) w = Next plan err w1 k" by blast
  have dr: "drop i fns = fns ! i # drop (Suc i) fns"
    using Suc.prems(1) by (simp add: Cons_nth_drop_Suc)
  have ne: "(drop (Suc i) fns \<noteq> []) = (Suc i < length fns)" by auto
  have fw: "forwarded_world (drop i fns) plan err w = forwarded_world (drop (Suc i) fns) plan err w1"
    unfolding dr forwarded_world.simps ne body by simp
  show ?case
  proof (cases "Suc i < length fns")
    case True
    have "length fns - Suc i \<le> f" "d = length fns - Suc i" using Suc.prems Suc.hyps(2) fuel by simp_all
    from Suc.hyps(1)[OF this(2) True this(1), of w1 "tr @ [(i, plan, err)]"]
    have "invoke f ch (StageFn (fns ! Suc i) (Suc i)) plan err (w1, tr @ [(i, plan, err)])
        = (Some NilFunctionCall,
           (forwarded_world (drop (Suc i) fns) plan err w1,
            (tr @ [(i, plan, err)]) @ map (\<lambda>j. (j, plan, err)) [Suc i..<length fns]))" .
    moreover have "[i..<length fns] = i # [Suc i..<length fns]"
      using Suc.prems(1) by (simp add: upt_conv_Cons)
    ultimately show ?thesis
      unfolding fuel invoke_wired[OF assms(1) Suc.prems(1)] fw using True body by simp
  next
    case False
    with Suc.prems(1) have "[i..<length fns] = [i]" by (simp add: upt_conv_Cons)
    moreover from False have "drop (Suc i) fns = []" by simp
    ultimately show ?thesis
      unfolding fuel invoke_wired[OF assms(1) Suc.prems(1)] fw using False body by simp
  qed
qed

lemma Process_free:
  "mu ch = Some False \<Longrightarrow>
   Process fuel ch plan s =
     (if length (stages ch) > 0
      then (case stages ch ! 0 of
              None \<Rightarrow> (Some NilFunctionCall, ch, s)
            | Some c \<Rightarrow> (fst (invoke fuel (ch\<lparr>mu := Some True\<rparr>) c plan None s), ch,
                         snd (invoke fuel (ch\<lparr>mu := Some True\<rparr>) c plan None s)))
      else (None, ch, s))"
  by (simp add: Process_def Let_def split: option.splits prod.splits)

lemma wired_mu: "wired fns (ch\<lparr>mu := m\<rparr>) = wired fns ch"
  by (simp add: wired_def)

lemma Process_wired:
  assumes "wired fns ch" "mu ch = Some False" "fns \<noteq> []"
  shows "Process fuel ch plan s =
           (fst (invoke fuel (ch\<lparr>mu := Some True\<rparr>) (StageFn (fns ! 0) 0) plan None s), ch,
            snd (invoke fuel (ch\<lparr>mu := Some True\<rparr>) (StageFn (fns ! 0) 0) plan None s))"
  using assms wired_length[OF assms(1)] wired_stages_nth[OF assms(1), of 0]
  by (simp add: Process_free)

text \<open>
  C1. Let a chain be built by adding the stage functions \<open>fns\<close> in order to a chain with
  no stages, and let every stage function call its continuation unconditionally with the
  plan and the error it received. Then \<open>Process\<close> invokes the stages \<open>0, 1, ..., n - 1\<close>
  in exactly this order, each once and each with the plan given to \<open>Process\<close> (and the
  error nil): the invocations recorded are these, and the world the run leaves is the one
  that the stage functions \<open>fns\<close> themselves make of it, each applied to that plan, nil
  and the world its predecessor passed on, up to its call of \<open>next\<close>. The bound on nested
  calls is any number from \<open>n\<close> on. The last stage calls a continuation that is nil, so
  a run with at least one stage ends in the panic of a nil function call, after all the
  invocations have been made.
\<close>

theorem C1_order:
  assumes "stages ch0 = []" and "nexts ch0 = []"
    and "Adds fns ch0 = (None, ch)"
    and "\<forall>fn \<in> set fns. forwards fn"
    and "length fns \<le> fuel"
  shows "trace_of (Process fuel ch plan (w, tr)) = tr @ map (\<lambda>i. (i, plan, None)) [0..<length fns]
       \<and> world_of (Process fuel ch plan (w, tr)) = forwarded_world fns plan None w
       \<and> (fns \<noteq> [] \<longrightarrow> fault_of (Process fuel ch plan (w, tr)) = Some NilFunctionCall)"
proof (cases "fns = []")
  case True
  with assms(3) have "ch = ch0" by simp
  then show ?thesis using assms(1) True
    by (cases "mu ch0"; cases "the (mu ch0)") (simp_all add: Process_def trace_of_def world_of_def)
next
  case False
  from Adds_wired[OF assms(1-3)] have wd: "wired fns ch" and m: "mu ch = mu ch0" by simp_all
  from Adds_mu[OF assms(3) False] m have free: "mu ch = Some False" by simp
  have wd': "wired fns (ch\<lparr>mu := Some True\<rparr>)" using wd by (simp add: wired_mu)
  from False have "0 < length fns" by simp
  from run_forwards[OF wd' assms(4) this, of fuel plan None w tr] assms(5)
  have "invoke fuel (ch\<lparr>mu := Some True\<rparr>) (StageFn (fns ! 0) 0) plan None (w, tr)
       = (Some NilFunctionCall,
          (forwarded_world fns plan None w, tr @ map (\<lambda>j. (j, plan, None)) [0..<length fns]))" by simp
  then show ?thesis
    by (simp add: Process_wired[OF wd free False] trace_of_def fault_of_def world_of_def)
qed

theorem C1_order_witness:
  "stages free_chain = [] \<and> nexts free_chain = []
   \<and> Adds [pass_stage, pass_stage] free_chain
       = (None, snd (Adds [pass_stage, pass_stage] free_chain))
   \<and> list_all forwards [pass_stage, pass_stage]
   \<and> length [pass_stage, pass_stage] \<le> 2
   \<and> trace_of (Process 2 (snd (Adds [pass_stage, pass_stage] free_chain)) () (0, []))
       = [(0, (), None), (1, (), None)]
   \<and> world_of (Process 2 (snd (Adds [pass_stage, pass_stage] free_chain)) () (0, [])) = 2
   \<and> fault_of (Process 2 (snd (Adds [pass_stage, pass_stage] free_chain)) () (0, []))
       = Some NilFunctionCall"
  using C1_order[of free_chain "[pass_stage, pass_stage]"
                    "snd (Adds [pass_stage, pass_stage] free_chain)" 2 "()" 0 "[]"]
        Adds_free_chain[of "[pass_stage, pass_stage]"]
  by (simp add: free_chain_simps forwards_pass pass_stage_def del: Adds.simps)

section \<open>Short circuit\<close>

lemma haltsD: "halts fn \<Longrightarrow> \<exists>w'. fn plan err b w = Return w'"
  unfolding halts_def
  by (erule allE[of _ plan], erule allE[of _ err], erule allE[of _ b], erule allE[of _ w])
     (cases "fn plan err b w"; simp)

lemma exec_trace_inv:
  assumes "\<And>c plan err w tr r w' tr'.
             nxt = Some c \<Longrightarrow> c plan err (w, tr) = (r, (w', tr')) \<Longrightarrow> P tr \<Longrightarrow> P tr'"
  shows "P tr \<Longrightarrow> exec b nxt tr = (r, (w', tr')) \<Longrightarrow> P tr'"
proof (induction b arbitrary: tr)
  case (Return w)
  then show ?case by simp
next
  case (Next plan err w k)
  show ?case
  proof (cases nxt)
    case None
    with Next.prems show ?thesis by simp
  next
    case (Some c)
    obtain r1 w1 tr1 where c: "c plan err (w, tr) = (r1, (w1, tr1))"
      by (metis surj_pair)
    from assms[OF Some c Next.prems(1)] have p1: "P tr1" .
    show ?thesis
    proof (cases r1)
      case None
      with Next.prems(2) Some c have "exec (k w1) nxt tr1 = (r, (w', tr'))" by simp
      from Next.IH[OF _ p1 this] show ?thesis by simp
    next
      case (Some f)
      with Next.prems(2) \<open>nxt = Some c\<close> c p1 show ?thesis by simp
    qed
  qed
qed

lemma exec_fault_inv:
  assumes "\<And>c plan err s. nxt = Some c \<Longrightarrow> fst (c plan err s) \<noteq> Some OutOfFuel"
  shows "fst (exec b nxt tr) \<noteq> Some OutOfFuel"
proof (induction b arbitrary: tr)
  case (Return w)
  then show ?case by simp
next
  case (Next plan err w k)
  show ?case
  proof (cases nxt)
    case None
    then show ?thesis by simp
  next
    case (Some c)
    obtain r1 w1 tr1 where c: "c plan err (w, tr) = (r1, (w1, tr1))"
      by (metis surj_pair)
    from assms[OF Some, of plan err "(w, tr)"] c have "r1 \<noteq> Some OutOfFuel" by simp
    then show ?thesis using Some c Next.IH[of "k w1" tr1]
      by (cases r1) simp_all
  qed
qed

lemma invoke_enough_fuel:
  assumes "wired fns ch"
  shows "i < length fns \<Longrightarrow> length fns - i \<le> fuel \<Longrightarrow>
         fst (invoke fuel ch (StageFn (fns ! i) i) plan err s) \<noteq> Some OutOfFuel"
proof (induction "length fns - i" arbitrary: i fuel plan err s)
  case 0
  then show ?case by simp
next
  case (Suc d)
  from Suc.prems Suc.hyps(2) obtain f where fuel: "fuel = Suc f" by (cases fuel) auto
  obtain w tr where s: "s = (w, tr)" by (cases s)
  show ?case
    unfolding fuel s invoke_wired[OF assms Suc.prems(1)]
  proof (rule exec_fault_inv)
    fix c plan' err' s'
    assume "(if Suc i < length fns then Some (invoke f ch (StageFn (fns ! Suc i) (Suc i))) else None) = Some c"
    then have lt: "Suc i < length fns" and c: "c = invoke f ch (StageFn (fns ! Suc i) (Suc i))"
      by (simp_all split: if_splits)
    have "d = length fns - Suc i" "length fns - Suc i \<le> f" using Suc.hyps(2) Suc.prems fuel by simp_all
    from Suc.hyps(1)[OF this(1) lt this(2)] show "fst (c plan' err' s') \<noteq> Some OutOfFuel"
      unfolding c .
  qed
qed

lemma invoke_halts_trace:
  assumes "wired fns ch" "k < length fns" "halts (fns ! k)"
  shows "i \<le> k \<Longrightarrow> invoke fuel ch (StageFn (fns ! i) i) plan err (w, tr) = (r, (w', tr'))
         \<Longrightarrow> \<forall>ev \<in> set tr. fst ev \<le> k \<Longrightarrow> \<forall>ev \<in> set tr'. fst ev \<le> k"
proof (induction fuel arbitrary: i plan err w tr r w' tr')
  case 0
  then show ?case by simp
next
  case (Suc f)
  from Suc.prems(1) assms(2) have i: "i < length fns" by simp
  have tr1: "\<forall>ev \<in> set (tr @ [(i, plan, err)]). fst ev \<le> k" using Suc.prems by simp
  note run = Suc.prems(2)[unfolded invoke_wired[OF assms(1) i]]
  show ?case
  proof (cases "i = k")
    case True
    from haltsD[OF assms(3)] obtain w1 where "(fns ! k) plan err (Suc k < length fns) w = Return w1"
      by blast
    with run tr1 show ?thesis
      unfolding True by auto
  next
    case False
    with Suc.prems(1) have lt: "Suc i \<le> k" by simp
    show ?thesis
    proof (rule exec_trace_inv[where P = "\<lambda>t. \<forall>ev \<in> set t. fst ev \<le> k", OF _ tr1 run])
      fix c plan' err' w0 t0 r0 w0' t0'
      assume "(if Suc i < length fns then Some (invoke f ch (StageFn (fns ! Suc i) (Suc i))) else None) = Some c"
        and c: "c plan' err' (w0, t0) = (r0, (w0', t0'))" and t0: "\<forall>ev \<in> set t0. fst ev \<le> k"
      then have "c = invoke f ch (StageFn (fns ! Suc i) (Suc i))" by (simp split: if_splits)
      with Suc.IH[OF lt _ t0] c show "\<forall>ev \<in> set t0'. fst ev \<le> k" by simp
    qed
  qed
qed

lemma Process_enough_fuel:
  assumes "wired fns ch" "length fns \<le> fuel"
  shows "fault_of (Process fuel ch plan s) \<noteq> Some OutOfFuel"
proof (cases "mu ch = Some False \<and> fns \<noteq> []")
  case True
  then have wd': "wired fns (ch\<lparr>mu := Some True\<rparr>)" and "0 < length fns"
    using assms(1) by (simp_all add: wired_mu)
  from invoke_enough_fuel[OF this, of fuel plan None s] assms(2) True show ?thesis
    by (simp add: Process_wired[OF assms(1)] fault_of_def)
next
  case False
  then show ?thesis using wired_length[OF assms(1)]
    by (cases "mu ch"; cases "the (mu ch)") (auto simp: Process_def fault_of_def)
qed

text \<open>More nested calls than there are stages change nothing.\<close>

lemma Process_fuel:
  assumes "wired fns ch" "length fns \<le> fuel"
  shows "Process fuel ch plan s = Process (length fns) ch plan s"
proof (cases "mu ch = Some False \<and> fns \<noteq> []")
  case True
  then have wd': "wired fns (ch\<lparr>mu := Some True\<rparr>)" and z: "0 < length fns"
    using assms(1) by (simp_all add: wired_mu)
  from invoke_fuel[OF wd' z, of fuel] assms(2)
  have "invoke fuel (ch\<lparr>mu := Some True\<rparr>) (StageFn (fns ! 0) 0)
        = invoke (length fns) (ch\<lparr>mu := Some True\<rparr>) (StageFn (fns ! 0) 0)" by simp
  with True show ?thesis by (simp add: Process_wired[OF assms(1)] del: invoke.simps)
next
  case False
  then show ?thesis using wired_length[OF assms(1)]
    by (cases "mu ch"; cases "the (mu ch)") (auto simp: Process_def)
qed

text \<open>
  C2. Let a chain be built by adding the stage functions \<open>fns\<close> in order to a chain with
  no stages, and let stage \<open>k\<close> return without calling its continuation. Then a run of
  \<open>Process\<close>, which is complete with \<open>n\<close> nested calls, invokes no stage after \<open>k\<close>:
  every invocation it makes is of a stage with index at most \<open>k\<close>, whatever the stages
  before \<open>k\<close> do.
\<close>

theorem C2_short_circuit:
  assumes "stages ch0 = []" and "nexts ch0 = []"
    and "Adds fns ch0 = (None, ch)"
    and "k < length fns" and "halts (fns ! k)"
    and "length fns \<le> fuel"
  shows "fault_of (Process fuel ch plan (w, [])) \<noteq> Some OutOfFuel
       \<and> (\<forall>ev \<in> set (trace_of (Process fuel ch plan (w, []))). fst ev \<le> k)"
proof -
  from Adds_wired[OF assms(1-3)] have wd: "wired fns ch" and m: "mu ch = mu ch0" by simp_all
  from assms(4) have ne: "fns \<noteq> []" by auto
  from Adds_mu[OF assms(3) ne] m have free: "mu ch = Some False" by simp
  have wd': "wired fns (ch\<lparr>mu := Some True\<rparr>)" using wd by (simp add: wired_mu)
  obtain r w' tr' where run: "invoke fuel (ch\<lparr>mu := Some True\<rparr>) (StageFn (fns ! 0) 0) plan None (w, [])
      = (r, (w', tr'))" by (metis surj_pair)
  from invoke_halts_trace[OF wd' assms(4,5) _ run] have "\<forall>ev \<in> set tr'. fst ev \<le> k" by simp
  then have "\<forall>ev \<in> set (trace_of (Process fuel ch plan (w, []))). fst ev \<le> k"
    by (simp add: Process_wired[OF wd free ne] run trace_of_def)
  with Process_enough_fuel[OF wd assms(6)] show ?thesis by simp
qed

theorem C2_short_circuit_witness:
  "stages free_chain = [] \<and> nexts free_chain = []
   \<and> Adds [pass_stage, stop_stage, pass_stage] free_chain
       = (None, snd (Adds [pass_stage, stop_stage, pass_stage] free_chain))
   \<and> (1::nat) < length [pass_stage, stop_stage, pass_stage]
   \<and> halts ([pass_stage, stop_stage, pass_stage] ! 1)
   \<and> length [pass_stage, stop_stage, pass_stage] \<le> 3
   \<and> fault_of (Process 3 (snd (Adds [pass_stage, stop_stage, pass_stage] free_chain)) () (0, []))
        \<noteq> Some OutOfFuel
   \<and> list_all (\<lambda>ev. fst ev \<le> 1)
        (trace_of (Process 3 (snd (Adds [pass_stage, stop_stage, pass_stage] free_chain)) () (0, [])))"
  using C2_short_circuit[of free_chain "[pass_stage, stop_stage, pass_stage]"
                    "snd (Adds [pass_stage, stop_stage, pass_stage] free_chain)" 1 3 "()" 0]
        Adds_free_chain[of "[pass_stage, stop_stage, pass_stage]"]
  by (simp add: free_chain_simps halts_stop list_all_iff del: Adds.simps)

section \<open>Error threading\<close>




section \<open>The empty chain\<close>

text \<open>With a mutex that is set and free, \<open>Process\<close> on a chain without stages does nothing.\<close>

lemma Process_empty_free:
  "mu ch = Some False \<Longrightarrow> stages ch = [] \<Longrightarrow> Process fuel ch plan s = (None, ch, s)"
  by (simp add: Process_def)

text \<open>
  C5 says that \<open>Process\<close> on every chain with zero stages invokes nothing, raises no
  error and returns the chain. The chain that \<open>CreateChain\<close> returns has zero stages, and
  \<open>Process\<close> on it panics with a nil pointer dereference at \<open>ch.mu.Lock()\<close>.
\<close>

theorem C5_empty_chain_panics:
  "stages CreateChain = []
   \<and> fault_of (Process fuel CreateChain plan s) = Some NilPointerDereference"
  by (simp add: CreateChain_def Process_def fault_of_def)

section \<open>Clearing a chain\<close>

text \<open>
  \<open>Clear\<close> empties both lists and keeps the mutex pointer. With a mutex that is set and
  free, \<open>Process\<close> on the cleared chain does nothing.
\<close>

lemma Clear_lists: "Clear ch = \<lparr>stages = [], nexts = [], mu = mu ch\<rparr>"
  by (simp add: Clear_def)

lemma Clear_Process_free:
  "mu ch = Some False \<Longrightarrow> Process fuel (Clear ch) plan s = (None, Clear ch, s)"
  by (simp add: Process_empty_free Clear_def)

lemma Clear_as_free_chain: "mu ch = Some False \<Longrightarrow> Clear ch = \<lparr>stages = [], nexts = [], mu = Some False\<rparr>"
  by (simp add: Clear_def)

text \<open>
  C6 says that after \<open>Clear\<close> every chain behaves as a freshly created one: \<open>Process\<close> is
  a no-op, and \<open>Add\<close> of a stage followed by \<open>Process\<close> does what it does on a newly
  constructed chain. On the chain of \<open>CreateChain\<close>, \<open>Clear\<close> changes nothing and
  \<open>Process\<close> and \<open>Add\<close> panic with a nil pointer dereference; and a cleared chain whose
  mutex is set runs an added stage where the newly constructed chain panics in \<open>Add\<close>.
\<close>

theorem C6_cleared_chain_panics:
  "Clear CreateChain = CreateChain
   \<and> fault_of (Process fuel (Clear CreateChain) plan s) = Some NilPointerDereference
   \<and> fst (Add fn (Clear CreateChain)) = Some NilPointerDereference
   \<and> Process 1 (snd (Add stop_stage (Clear free_chain))) () (0, [])
       = (None, snd (Add stop_stage free_chain), (1, [(0, (), None)]))
   \<and> Process 1 (snd (Add stop_stage CreateChain)) () (0, [])
       = (Some NilPointerDereference, CreateChain, (0, []))"
  by (simp add: CreateChain_def Clear_def Process_def Add_def fault_of_def free_chain_def
        stop_stage_def Let_def)

section \<open>The two lists have the same length\<close>

lemma Add_lists:
  "stages (snd (Add fn ch)) = (if mu ch = Some False then stages ch @ [Some (StageFn fn (length (nexts ch)))] else stages ch)"
  "length (nexts (snd (Add fn ch))) = (if mu ch = Some False then Suc (length (nexts ch)) else length (nexts ch))"
  by (cases "mu ch"; cases "the (mu ch)"; simp add: Add_def Let_def)+

lemma Process_lists:
  "stages (chain_of (Process fuel ch plan s)) = stages ch"
  "nexts (chain_of (Process fuel ch plan s)) = nexts ch"
  by (cases "mu ch"; cases "the (mu ch)"; simp add: Process_def Let_def chain_of_def split: prod.splits)+

lemma Process_mu: "mu (chain_of (Process fuel ch plan s)) = mu ch"
  by (cases "mu ch"; cases "the (mu ch)"; simp add: Process_def Let_def chain_of_def split: prod.splits)

lemma reachable_lengths: "reachable c0 c \<Longrightarrow> lengths_agree c0 \<Longrightarrow> lengths_agree c"
  by (induction rule: reachable.induct) (simp_all add: lengths_agree_def Add_lists Process_lists Clear_def)

text \<open>
  C7. The stage list and the slot list have the same length in the chain of
  \<open>CreateChain\<close>; if they have in a chain, they have in every state that calls of \<open>Add\<close>,
  \<open>Process\<close> and \<open>Clear\<close> lead to, whether these return or panic; each of the three
  operations preserves the equality.
\<close>

theorem C7_lengths_agree:
  "lengths_agree (CreateChain :: ('p, 'e, 'w) Chain)
   \<and> (lengths_agree c0 \<longrightarrow> reachable c0 (c :: ('p, 'e, 'w) Chain) \<longrightarrow> lengths_agree c)
   \<and> (lengths_agree c \<longrightarrow> lengths_agree (snd (Add fn c)) \<and> lengths_agree (Clear c)
                           \<and> lengths_agree (chain_of (Process fuel c plan s)))"
  using reachable_lengths[of c0 c]
  by (simp add: lengths_agree_def CreateChain_def Add_lists Process_lists Clear_def)

theorem C7_lengths_agree_witness:
  "lengths_agree free_chain
   \<and> reachable free_chain (Clear (chain_of (Process 1 (snd (Add pass_stage free_chain)) () (0, []))))
   \<and> lengths_agree (snd (Add pass_stage free_chain))
   \<and> length (stages (snd (Add pass_stage free_chain))) = 1
   \<and> lengths_agree (Clear (snd (Add pass_stage free_chain)))
   \<and> lengths_agree (chain_of (Process 1 (snd (Add pass_stage free_chain)) () (0, [])))"
proof -
  have a: "lengths_agree free_chain" by (simp add: lengths_agree_def free_chain_def)
  have r: "reachable free_chain (snd (Add pass_stage free_chain))"
    by (rule reachable.add, rule reachable.start)
  have r2: "reachable free_chain (Clear (chain_of (Process 1 (snd (Add pass_stage free_chain)) () (0, []))))"
    by (rule reachable.clear, rule reachable.process, rule r)
  from C7_lengths_agree[of free_chain "snd (Add pass_stage free_chain)" pass_stage 1 "()" "(0, [])"] a r
  have b: "lengths_agree (snd (Add pass_stage free_chain))" by simp
  from C7_lengths_agree[of free_chain "snd (Add pass_stage free_chain)" pass_stage 1 "()" "(0, [])"] b
  have c: "lengths_agree (Clear (snd (Add pass_stage free_chain)))"
    "lengths_agree (chain_of (Process 1 (snd (Add pass_stage free_chain)) () (0, [])))" by simp_all
  have d: "length (stages (snd (Add pass_stage free_chain))) = 1"
    by (simp add: Add_lists free_chain_def)
  from a r2 b c d show ?thesis by simp
qed

section \<open>Calling the continuation more than once\<close>

lemma halts_calls: "halts fn = calls_next 0 fn"
  by (simp add: halts_def calls_next_def)

lemma calls_zero: "calls 0 b \<Longrightarrow> \<exists>w. b = Return w"
  by (cases b) simp_all

lemma invoke_mu: "invoke fuel (ch\<lparr>mu := m\<rparr>) = invoke fuel ch"
proof (induction fuel)
  case 0
  show ?case by (intro ext) simp
next
  case (Suc fuel)
  show ?case by (intro ext) (simp add: Suc split: ChainStageNextFunction.splits)
qed

text \<open>
  A body that calls a continuation \<open>m\<close> times, when the continuation never faults: the
  callee's invocations are made \<open>m\<close> times over, and its effect on the world as often.
\<close>

lemma exec_calls:
  assumes "\<And>plan err w tr. \<exists>T. c plan err (w, tr) = (None, (g plan err w, tr @ T)) \<and> map fst T = I"
  shows "calls m b \<Longrightarrow>
         \<exists>T. exec b (Some c) tr = (None, (body_world g b, tr @ T)) \<and> map fst T = concat (replicate m I)"
proof (induction m arbitrary: b tr)
  case 0
  then show ?case by (cases b) simp_all
next
  case (Suc m)
  from Suc.prems obtain plan err w k where b: "b = Next plan err w k" and k: "\<And>w'. calls m (k w')"
    by (cases b) simp_all
  from assms[of plan err w tr] obtain T1
    where c: "c plan err (w, tr) = (None, (g plan err w, tr @ T1))" and i1: "map fst T1 = I" by blast
  from Suc.IH[OF k, of "g plan err w" "tr @ T1"] obtain T2
    where e: "exec (k (g plan err w)) (Some c) (tr @ T1)
                = (None, (body_world g (k (g plan err w)), (tr @ T1) @ T2))"
      and i2: "map fst T2 = concat (replicate m I)" by blast
  have "exec b (Some c) tr = (None, (body_world g b, tr @ (T1 @ T2)))"
    by (simp add: b c e)
  moreover have "map fst (T1 @ T2) = concat (replicate (Suc m) I)" using i1 i2 by simp
  ultimately show ?case by blast
qed

text \<open>
  A chain built by \<open>Add\<close> whose stage functions call their continuations \<open>ms\<close> times, the
  last one never: a call of wrapper \<open>i\<close> returns, and leaves the world that the stage
  functions from \<open>i\<close> on make.
\<close>

lemma run_visits:
  assumes "wired fns ch" "length ms = length fns"
    and "list_all2 calls_next (drop i0 ms) (drop i0 fns)" "ms \<noteq> []" "last ms = 0"
  shows "i0 \<le> i \<Longrightarrow> i < length fns \<Longrightarrow> length fns - i \<le> fuel \<Longrightarrow>
         \<exists>T. invoke fuel ch (StageFn (fns ! i) i) plan err (w, tr)
               = (None, (world_after (drop i fns) plan err w, tr @ (i, plan, err) # T))
             \<and> i # map fst T = visits (drop i ms) i"
proof (induction "length fns - i" arbitrary: i fuel plan err w tr)
  case 0
  then show ?case by simp
next
  case (Suc d)
  from Suc.prems Suc.hyps(2) obtain f where fuel: "fuel = Suc f" by (cases fuel) auto
  note len = assms(2)
  from list_all2_nthD[OF assms(3), of "i - i0"] Suc.prems(1,2) len
  have "calls_next (ms ! i) (fns ! i)" by simp
  then have body: "\<And>b. calls (ms ! i) ((fns ! i) plan err b w)"
    by (simp add: calls_next_def)
  have dr: "drop i ms = ms ! i # drop (Suc i) ms" "drop i fns = fns ! i # drop (Suc i) fns"
    using Suc.prems(2) len by (simp_all add: Cons_nth_drop_Suc)
  have ne: "(drop (Suc i) fns \<noteq> []) = (Suc i < length fns)" by auto
  have wa: "world_after (drop i fns) plan err w
              = body_world (world_after (drop (Suc i) fns)) ((fns ! i) plan err (Suc i < length fns) w)"
    unfolding dr world_after.simps ne ..
  show ?case
  proof (cases "Suc i < length fns")
    case True
    have "length fns - Suc i \<le> f" "d = length fns - Suc i" "i0 \<le> Suc i"
      using Suc.prems Suc.hyps(2) fuel by simp_all
    note ih = Suc.hyps(1)[OF this(2) this(3) True this(1)]
    have callee: "\<exists>T. invoke f ch (StageFn (fns ! Suc i) (Suc i)) plan' err' (w', tr')
                    = (None, (world_after (drop (Suc i) fns) plan' err' w', tr' @ T))
                  \<and> map fst T = visits (drop (Suc i) ms) (Suc i)" for plan' err' w' tr'
    proof -
      from ih[of plan' err' w' tr'] obtain T
        where "invoke f ch (StageFn (fns ! Suc i) (Suc i)) plan' err' (w', tr')
                 = (None, (world_after (drop (Suc i) fns) plan' err' w', tr' @ (Suc i, plan', err') # T))"
          and "Suc i # map fst T = visits (drop (Suc i) ms) (Suc i)" by blast
      then have "invoke f ch (StageFn (fns ! Suc i) (Suc i)) plan' err' (w', tr')
                 = (None, (world_after (drop (Suc i) fns) plan' err' w', tr' @ ((Suc i, plan', err') # T)))
               \<and> map fst ((Suc i, plan', err') # T) = visits (drop (Suc i) ms) (Suc i)" by simp
      then show ?thesis by blast
    qed
    from exec_calls[where c = "invoke f ch (StageFn (fns ! Suc i) (Suc i))"
                      and g = "world_after (drop (Suc i) fns)"
                      and I = "visits (drop (Suc i) ms) (Suc i)"
                      and tr = "tr @ [(i, plan, err)]", OF callee body[of True]]
    obtain T where e: "exec ((fns ! i) plan err True w) (Some (invoke f ch (StageFn (fns ! Suc i) (Suc i))))
                            (tr @ [(i, plan, err)])
                 = (None, (body_world (world_after (drop (Suc i) fns)) ((fns ! i) plan err True w),
                           (tr @ [(i, plan, err)]) @ T))"
        and t: "map fst T = concat (replicate (ms ! i) (visits (drop (Suc i) ms) (Suc i)))" by blast
    have "invoke fuel ch (StageFn (fns ! i) i) plan err (w, tr)
               = (None, (world_after (drop i fns) plan err w, tr @ (i, plan, err) # T))"
      unfolding fuel invoke_wired[OF assms(1) Suc.prems(2)] wa using True e by simp
    moreover have "i # map fst T = visits (drop i ms) i" unfolding dr(1) t by simp
    ultimately show ?thesis by blast
  next
    case False
    with Suc.prems(2) len have i: "i = length ms - 1" by simp
    with assms(4,5) have z: "ms ! i = 0" by (simp add: last_conv_nth)
    with body[of False] calls_zero obtain w1 where r: "(fns ! i) plan err False w = Return w1" by metis
    have d: "drop (Suc i) ms = []" "drop (Suc i) fns = []" using False len by simp_all
    have "invoke fuel ch (StageFn (fns ! i) i) plan err (w, tr)
               = (None, (world_after (drop i fns) plan err w, tr @ (i, plan, err) # []))"
      unfolding fuel invoke_wired[OF assms(1) Suc.prems(2)] wa using False r by simp
    moreover have "i # map fst [] = visits (drop i ms) i" unfolding dr(1) d z by simp
    ultimately show ?thesis by blast
  qed
qed

lemma visits_ones: "visits (replicate l (Suc 0) @ ms) i = [i..<i + l] @ visits ms (i + l)"
proof (induction l arbitrary: i)
  case 0
  then show ?case by simp
next
  case (Suc l)
  have "[i..<i + Suc l] = i # [Suc i..<Suc i + l]" by (simp add: upt_conv_Cons)
  then show ?case using Suc[of "Suc i"] by simp
qed

lemma visits_suffix: "visits (replicate l (Suc 0) @ [0]) i = [i..<Suc (i + l)]"
  by (simp add: visits_ones)

lemma list_all2_replicate: "\<forall>x \<in> set xs. P m x \<Longrightarrow> list_all2 P (replicate (length xs) m) xs"
  by (induction xs) simp_all

lemma invocations_fst: "invocations j tr = length (filter (\<lambda>x. x = j) (map fst tr))"
  by (simp add: invocations_def filter_map comp_def)

lemma count_upt: "length (filter (\<lambda>x. x = j) [a..<b]) = (if a \<le> j \<and> j < b then 1 else 0)"
  by (induction b) auto

text \<open>
  C8, as stated, has every stage after the one that calls \<open>next\<close> twice call \<open>next\<close>
  itself. Then the last stage calls its nil continuation and panics during the first pass
  through the suffix, and the second pass is never made: with the stages \<open>twice_stage\<close>
  and \<open>pass_stage\<close>, the second stage is invoked once, its counter is 1, and \<open>Process\<close>
  ends in the panic.
\<close>

theorem C8_counterexample:
  "fault_of twice_pass_run = Some NilFunctionCall
   \<and> trace_of twice_pass_run = [(0, (), None), (1, (), None)]
   \<and> world_of twice_pass_run = 1
   \<and> invocations 1 (trace_of twice_pass_run) \<noteq> 2"
  by (simp add: twice_pass_run_def free_chain_def Add_def Process_def Let_def pass_stage_def
        twice_stage_def numeral_2_eq_2 fault_of_def trace_of_def world_of_def invocations_def)

text \<open>
  C8, amended. Let a chain be built by adding, in order, stage functions \<open>pre\<close>, a stage
  function \<open>t\<close>, stage functions \<open>mid\<close> that each call \<open>next\<close> once, and a last stage
  function that returns without calling its continuation; a call of \<open>next\<close> may pass any
  plan and error.
  \<^item> Whenever the wrapper of \<open>t\<close> is invoked and \<open>t\<close> calls its continuation twice, first
    with \<open>p_a\<close>, \<open>e_a\<close> in world \<open>w_a\<close> and then with \<open>p_b\<close>, \<open>e_b\<close> in world \<open>w_b\<close>, the stages
    after \<open>t\<close> are run twice during that invocation: their invocations are made in
    order, then in order again, and their effect on the world takes place for the first
    call and again for the second (\<open>t\<close> sees the world of the first pass before its
    second call, and that of the second pass before it returns).
  \<^item> When moreover \<open>t\<close> always calls \<open>next\<close> twice and every stage function of \<open>pre\<close> calls
    \<open>next\<close> once, \<open>Process\<close> returns without a fault, it invokes the stages up to \<open>t\<close>
    once, in order, and then the stages after \<open>t\<close> in order, twice, so that each of
    them is invoked exactly twice, and it leaves the world that the side effects of the
    stage functions, those after \<open>t\<close> taken twice, make of it.
  The pipeline has no guard against running a continuation again.
\<close>

theorem C8_suffix_runs_twice:
  assumes "stages (ch0 :: ('p, 'e, 'w) Chain) = []" and "nexts ch0 = []"
    and "Adds (pre @ [t] @ mid @ [lst]) ch0 = (None, ch)"
    and "\<forall>fn \<in> set mid. calls_next (Suc 0) fn"
    and "halts lst"
    and "length (pre @ [t] @ mid @ [lst]) \<le> fuel"
  shows "(t plan err True w = Next p_a e_a w_a k_a \<longrightarrow>
          k_a (world_after (mid @ [lst]) p_a e_a w_a) = Next p_b e_b w_b k_b \<longrightarrow>
          k_b (world_after (mid @ [lst]) p_b e_b w_b) = Return w_c \<longrightarrow>
          (\<exists>T1 T2. invoke fuel (ch\<lparr>mu := m\<rparr>) (StageFn t (length pre)) plan err (w, tr)
                      = (None, (w_c, tr @ (length pre, plan, err) # T1 @ T2))
                  \<and> map fst T1 = [Suc (length pre)..<length (pre @ [t] @ mid @ [lst])]
                  \<and> map fst T2 = [Suc (length pre)..<length (pre @ [t] @ mid @ [lst])]))
       \<and> ((\<forall>fn \<in> set pre. calls_next (Suc 0) fn) \<longrightarrow> calls_next 2 t \<longrightarrow>
            fault_of (Process fuel ch start_plan (start_world, [])) = None
          \<and> map fst (trace_of (Process fuel ch start_plan (start_world, [])))
              = [0..<Suc (length pre)]
                @ [Suc (length pre)..<length (pre @ [t] @ mid @ [lst])]
                @ [Suc (length pre)..<length (pre @ [t] @ mid @ [lst])]
          \<and> (\<forall>j. length pre < j \<and> j < length (pre @ [t] @ mid @ [lst]) \<longrightarrow>
                 invocations j (trace_of (Process fuel ch start_plan (start_world, []))) = 2)
          \<and> world_of (Process fuel ch start_plan (start_world, []))
              = world_after (pre @ [t] @ mid @ [lst]) start_plan None start_world)"
proof -
  let ?fns = "pre @ [t] @ mid @ [lst]"
  let ?k = "length pre"
  let ?sfx = "mid @ [lst]"
  let ?R = "[Suc ?k..<length ?fns]"
  from Adds_wired[OF assms(1-3)] have wd: "wired ?fns ch" and mu: "mu ch = mu ch0" by simp_all
  have ne: "?fns \<noteq> []" by simp
  from Adds_mu[OF assms(3) ne] mu have free: "mu ch = Some False" by simp
  have n: "length ?fns = Suc (Suc ?k + length mid)" by simp
  have k: "?k < length ?fns" "Suc ?k < length ?fns" by simp_all
  have tk: "?fns ! ?k = t" by simp
  have dsfx: "drop (Suc ?k) ?fns = ?sfx" by simp
  have lst0: "calls_next 0 lst" using assms(5) by (simp add: halts_calls)
  have sfx: "list_all2 calls_next (replicate (length mid) (Suc 0) @ [0]) ?sfx"
    using assms(4) lst0 by (intro list_all2_appendI list_all2_replicate) simp_all

  have a: "\<exists>T1 T2. invoke fuel (ch\<lparr>mu := m\<rparr>) (StageFn t ?k) plan err (w, tr)
                      = (None, (w_c, tr @ (?k, plan, err) # T1 @ T2))
                  \<and> map fst T1 = ?R \<and> map fst T2 = ?R"
    if b1: "t plan err True w = Next p_a e_a w_a k_a"
      and b2: "k_a (world_after ?sfx p_a e_a w_a) = Next p_b e_b w_b k_b"
      and b3: "k_b (world_after ?sfx p_b e_b w_b) = Return w_c"
  proof -
    let ?ms = "replicate (Suc ?k) (0::nat) @ replicate (length mid) (Suc 0) @ [0]"
    from assms(6) obtain f where fuel: "fuel = Suc f" by (cases fuel) auto
    have f: "length ?fns - Suc ?k \<le> f" using assms(6) fuel by simp
    have l: "length ?ms = length ?fns" by simp
    have d: "list_all2 calls_next (drop (Suc ?k) ?ms) (drop (Suc ?k) ?fns)"
      using sfx by simp
    have v: "visits (drop (Suc ?k) ?ms) (Suc ?k) = ?R"
      unfolding n using visits_suffix[of "length mid" "Suc ?k"] by simp
    have callee: "\<exists>T. invoke f ch (StageFn (?fns ! Suc ?k) (Suc ?k)) plan' err' (w', tr')
                    = (None, (world_after ?sfx plan' err' w', tr' @ T))
                  \<and> map fst T = ?R" for plan' err' w' tr'
    proof -
      from run_visits[OF wd l d _ _ le_refl k(2) f, of plan' err' w' tr']
      obtain T where "invoke f ch (StageFn (?fns ! Suc ?k) (Suc ?k)) plan' err' (w', tr')
                 = (None, (world_after (drop (Suc ?k) ?fns) plan' err' w', tr' @ (Suc ?k, plan', err') # T))"
          and "Suc ?k # map fst T = visits (drop (Suc ?k) ?ms) (Suc ?k)" by auto
      then have "invoke f ch (StageFn (?fns ! Suc ?k) (Suc ?k)) plan' err' (w', tr')
                 = (None, (world_after ?sfx plan' err' w', tr' @ ((Suc ?k, plan', err') # T)))
               \<and> map fst ((Suc ?k, plan', err') # T) = ?R"
        unfolding v dsfx by simp
      then show ?thesis by blast
    qed
    define c where "c = invoke f ch (StageFn (?fns ! Suc ?k) (Suc ?k))"
    define t0 where "t0 = tr @ [(?k, plan, err)]"
    note callee' = callee[folded c_def]
    from callee'[of p_a e_a w_a t0] obtain T1
      where c1: "c p_a e_a (w_a, t0) = (None, (world_after ?sfx p_a e_a w_a, t0 @ T1))"
        and r1: "map fst T1 = ?R" by blast
    from callee'[of p_b e_b w_b "t0 @ T1"] obtain T2
      where c2: "c p_b e_b (w_b, t0 @ T1) = (None, (world_after ?sfx p_b e_b w_b, (t0 @ T1) @ T2))"
        and r2: "map fst T2 = ?R" by blast
    have ex: "exec (t plan err True w) (Some c) t0 = (None, (w_c, (t0 @ T1) @ T2))"
      unfolding b1 by (simp add: c1 b2 c2 b3)
    note iw = invoke_wired[OF wd k(1), of f plan err w tr, folded c_def t0_def, unfolded tk]
    have "invoke (Suc f) ch (StageFn t ?k) plan err (w, tr) = exec (t plan err True w) (Some c) t0"
      using iw by (simp only: eqTrueI[OF k(2)] if_True)
    then have "invoke fuel (ch\<lparr>mu := m\<rparr>) (StageFn t ?k) plan err (w, tr)
                 = (None, (w_c, tr @ (?k, plan, err) # T1 @ T2))"
      unfolding fuel invoke_mu ex by (simp add: t0_def)
    with r1 r2 show ?thesis by blast
  qed

  have b: "fault_of (Process fuel ch start_plan (start_world, [])) = None
          \<and> map fst (trace_of (Process fuel ch start_plan (start_world, []))) = [0..<Suc ?k] @ ?R @ ?R
          \<and> (\<forall>j. ?k < j \<and> j < length ?fns \<longrightarrow>
                 invocations j (trace_of (Process fuel ch start_plan (start_world, []))) = 2)
          \<and> world_of (Process fuel ch start_plan (start_world, [])) = world_after ?fns start_plan None start_world"
    if p: "\<forall>fn \<in> set pre. calls_next (Suc 0) fn" and t2: "calls_next 2 t"
  proof -
    let ?ms = "replicate ?k (Suc 0) @ [2] @ replicate (length mid) (Suc 0) @ [0]"
    have wd': "wired ?fns (ch\<lparr>mu := Some True\<rparr>)" using wd by (simp add: wired_mu)
    have l: "length ?ms = length ?fns" by simp
    have la: "list_all2 calls_next (drop 0 ?ms) (drop 0 ?fns)"
      using p t2 assms(4) lst0 by (simp del: append.simps, intro list_all2_appendI list_all2_replicate) simp_all
    have z: "0 < length ?fns" by simp
    from run_visits[OF wd' l la _ _ le_refl z, of fuel start_plan None start_world "[]"] assms(6)
    obtain T where run: "invoke fuel (ch\<lparr>mu := Some True\<rparr>) (StageFn (?fns ! 0) 0) start_plan None (start_world, [])
        = (None, (world_after ?fns start_plan None start_world, (0, start_plan, None) # T))"
      and vt: "0 # map fst T = visits ?ms 0" by auto
    define S where "S = visits (replicate (length mid) (Suc 0) @ [0]) (Suc ?k)"
    have s: "S = ?R" unfolding S_def n by (rule visits_suffix)
    have v2: "visits ([2] @ replicate (length mid) (Suc 0) @ [0]) ?k = ?k # S @ S"
      by (simp add: S_def numeral_2_eq_2)
    have v1: "visits ?ms 0 = [0..<?k] @ visits ([2] @ replicate (length mid) (Suc 0) @ [0]) ?k"
      using visits_ones[of ?k "[2] @ replicate (length mid) (Suc 0) @ [0]" 0] by simp
    have v: "visits ?ms 0 = [0..<Suc ?k] @ S @ S"
      unfolding v1 v2 by simp
    have "map fst (trace_of (Process fuel ch start_plan (start_world, []))) = [0..<Suc ?k] @ S @ S"
      unfolding Process_wired[OF wd free ne] run v[symmetric] vt[symmetric] by (simp add: trace_of_def)
    then have tr: "map fst (trace_of (Process fuel ch start_plan (start_world, []))) = [0..<Suc ?k] @ ?R @ ?R"
      unfolding s .
    have inv: "invocations j (trace_of (Process fuel ch start_plan (start_world, []))) = 2"
      if "?k < j \<and> j < length ?fns" for j
      unfolding invocations_fst tr using that by (simp add: count_upt del: upt_Suc)
    show ?thesis
      using tr inv unfolding Process_wired[OF wd free ne] run
      by (simp add: fault_of_def world_of_def trace_of_def)
  qed
  from a b show ?thesis by blast
qed

theorem C8_suffix_runs_twice_witness:
  "stages free_chain = [] \<and> nexts free_chain = []
   \<and> Adds ([fail_stage] @ [twice_stage] @ [pass_stage] @ [stop_stage]) free_chain
        = (None, snd (Adds ([fail_stage] @ [twice_stage] @ [pass_stage] @ [stop_stage]) free_chain))
   \<and> list_all (calls_next (Suc 0)) [pass_stage] \<and> halts stop_stage
   \<and> length ([fail_stage] @ [twice_stage] @ [pass_stage] @ [stop_stage]) \<le> 4
   \<and> list_all (calls_next (Suc 0)) [fail_stage] \<and> calls_next 2 twice_stage
   \<and> twice_stage () (Some ()) True 1 = Next () (Some ()) 1 (\<lambda>w'. Next () (Some ()) w' Return)
   \<and> world_after ([pass_stage] @ [stop_stage]) () (Some ()) 1 = 3
   \<and> world_after ([pass_stage] @ [stop_stage]) () (Some ()) 3 = 5
   \<and> fst (invoke 4 ((snd (Adds ([fail_stage] @ [twice_stage] @ [pass_stage] @ [stop_stage]) free_chain))
                       \<lparr>mu := Some True\<rparr>)
                   (StageFn twice_stage 1) () (Some ()) (1, [(0, (), None)])) = None
   \<and> fst (snd (invoke 4 ((snd (Adds ([fail_stage] @ [twice_stage] @ [pass_stage] @ [stop_stage]) free_chain))
                            \<lparr>mu := Some True\<rparr>)
                        (StageFn twice_stage 1) () (Some ()) (1, [(0, (), None)]))) = 5
   \<and> fault_of (Process 4 (snd (Adds ([fail_stage] @ [twice_stage] @ [pass_stage] @ [stop_stage]) free_chain))
                 () (0, [])) = None
   \<and> map fst (trace_of (Process 4 (snd (Adds ([fail_stage] @ [twice_stage] @ [pass_stage] @ [stop_stage])
                                          free_chain)) () (0, [])))
        = [0, 1, 2, 3, 2, 3]
   \<and> invocations 2 (trace_of (Process 4 (snd (Adds ([fail_stage] @ [twice_stage] @ [pass_stage] @ [stop_stage])
                                               free_chain)) () (0, []))) = 2
   \<and> invocations 3 (trace_of (Process 4 (snd (Adds ([fail_stage] @ [twice_stage] @ [pass_stage] @ [stop_stage])
                                               free_chain)) () (0, []))) = 2
   \<and> world_of (Process 4 (snd (Adds ([fail_stage] @ [twice_stage] @ [pass_stage] @ [stop_stage]) free_chain))
                 () (0, [])) = 5"
proof -
  let ?fns = "[fail_stage] @ [twice_stage] @ [pass_stage] @ [stop_stage]"
  let ?ch = "snd (Adds ?fns free_chain)"
  let ?R = "Process 4 ?ch () (0, [])"
  let ?I = "invoke 4 (?ch\<lparr>mu := Some True\<rparr>) (StageFn twice_stage 1) () (Some ()) (1, [(0, (), None)])"
  note a = Adds_free_chain[of ?fns]
  have p: "calls_next (Suc 0) pass_stage" by (simp add: calls_next_def pass_stage_def)
  have f: "calls_next (Suc 0) fail_stage" by (simp add: calls_next_def fail_stage_def)
  have t: "calls_next 2 twice_stage" by (simp add: calls_next_def twice_stage_def numeral_2_eq_2)
  have mid: "\<forall>fn \<in> set [pass_stage]. calls_next (Suc 0) fn" using p by simp
  have pre: "\<forall>fn \<in> set [fail_stage]. calls_next (Suc 0) fn" using f by simp
  have len: "length ?fns \<le> 4" by simp
  have b1: "twice_stage () (Some ()) True 1 = Next () (Some ()) 1 (\<lambda>w'. Next () (Some ()) w' Return)"
    by (simp add: twice_stage_def)
  have w1: "world_after ([pass_stage] @ [stop_stage]) () (Some ()) 1 = 3"
    and w2: "world_after ([pass_stage] @ [stop_stage]) () (Some ()) 3 = 5"
    by (simp_all add: pass_stage_def stop_stage_def)
  have b2: "Next () (Some ()) (world_after ([pass_stage] @ [stop_stage]) () (Some ()) 1) Return
              = Next () (Some ()) 3 Return" unfolding w1 by simp
  have b3: "Return (world_after ([pass_stage] @ [stop_stage]) () (Some ()) 3) = Return (5::nat)"
    unfolding w2 by simp
  note inst = C8_suffix_runs_twice[where pre = "[fail_stage]" and t = twice_stage
      and mid = "[pass_stage]" and lst = stop_stage and fuel = 4
      and plan = "()" and err = "Some ()" and w = 1 and p_a = "()" and e_a = "Some ()" and w_a = 1
      and k_a = "\<lambda>w'. Next () (Some ()) w' Return" and p_b = "()" and e_b = "Some ()"
      and w_b = 3 and k_b = Return and w_c = 5 and m = "Some True" and tr = "[(0, (), None)]"
      and start_plan = "()" and start_world = 0,
      OF free_chain_simps(1,2) a mid halts_stop len]
  from inst[THEN conjunct1, rule_format, OF b1 b2 b3] obtain T1 T2
    where "invoke 4 (?ch\<lparr>mu := Some True\<rparr>) (StageFn twice_stage (length [fail_stage])) () (Some ())
             (1, [(0, (), None)])
           = (None, (5, [(0, (), None)] @ (length [fail_stage], (), Some ()) # T1 @ T2))"
    by blast
  then have i: "?I = (None, (5, [(0, (), None)] @ (length [fail_stage], (), Some ()) # T1 @ T2))"
    by (simp del: Adds.simps invoke.simps)
  from inst[THEN conjunct2, THEN mp, OF pre, THEN mp, OF t]
  have r: "fault_of ?R = None"
      "map fst (trace_of ?R) = [0..<Suc (length [fail_stage])]
         @ [Suc (length [fail_stage])..<length ?fns] @ [Suc (length [fail_stage])..<length ?fns]"
      "\<forall>j. length [fail_stage] < j \<and> j < length ?fns \<longrightarrow> invocations j (trace_of ?R) = 2"
      "world_of ?R = world_after ?fns () None 0"
    by blast+
  have u: "[0..<Suc (length [fail_stage])] = [0, 1]" "[Suc (length [fail_stage])..<length ?fns] = [2, 3]"
    by (simp_all add: upt_rec)
  have r2: "map fst (trace_of ?R) = [0, 1, 2, 3, 2, 3]" unfolding r(2) u by simp
  from r(3) have r3: "invocations 2 (trace_of ?R) = 2" "invocations 3 (trace_of ?R) = 2" by simp_all
  have r4: "world_of ?R = 5"
    unfolding r(4) by (simp add: fail_stage_def twice_stage_def pass_stage_def stop_stage_def)
  from a p f t b1 w1 w2 i r(1) r2 r3 r4 halts_stop len show ?thesis
    by (simp add: free_chain_simps del: Adds.simps invoke.simps)
qed

section \<open>The slot of the last stage\<close>

text \<open>
  C9. In a chain built by adding the stage functions \<open>fns\<close> in order to a chain with no
  stages, stage \<open>i\<close> is the wrapper of \<open>fns ! i\<close>, and slot \<open>i\<close> holds the wrapper of stage
  \<open>i + 1\<close> if that stage has been added and is nil otherwise; a further \<open>Add\<close> writes its
  wrapper into the slot that was last, and appends a nil slot. So when the stage added
  last calls its continuation, it calls a nil function and the run panics.
\<close>

theorem C9_unresolved_last_slot:
  assumes "stages ch0 = []" and "nexts ch0 = []"
    and "Adds fns ch0 = (None, ch)"
    and "i < length fns"
  shows "stages ch ! i = Some (StageFn (fns ! i) i)
       \<and> nexts ch ! i = (if Suc i < length fns then stages ch ! Suc i else None)
       \<and> (Add fn ch = (None, ch') \<longrightarrow>
            nexts ch' = (nexts ch)[length fns - 1 := Some (StageFn fn (length fns))] @ [None]
          \<and> stages ch' = stages ch @ [Some (StageFn fn (length fns))])
       \<and> ((last fns) plan err False w = Next plan' err' w1 k \<longrightarrow>
            invoke (Suc fuel) ch (StageFn (last fns) (length fns - 1)) plan err (w, tr)
              = (Some NilFunctionCall, (w1, tr @ [(length fns - 1, plan, err)])))"
proof -
  from Adds_wired[OF assms(1-3)] have wd: "wired fns ch" and m: "mu ch = mu ch0" by simp_all
  from assms(4) have ne: "fns \<noteq> []" by auto
  from Adds_mu[OF assms(3) ne] m have free: "mu ch = Some False" by simp
  note len = wired_length[OF wd]
  have nn: "nexts ch \<noteq> []" using len ne by (metis length_0_conv)
  have a: "stages ch ! i = Some (StageFn (fns ! i) i)" by (rule wired_stages_nth[OF wd assms(4)])
  have b: "nexts ch ! i = (if Suc i < length fns then stages ch ! Suc i else None)"
    using wired_nexts_nth[OF wd assms(4)] wired_stages_nth[OF wd, of "Suc i"] by simp
  have c: "Add fn ch = (None, ch') \<longrightarrow>
            nexts ch' = (nexts ch)[length fns - 1 := Some (StageFn fn (length fns))] @ [None]
          \<and> stages ch' = stages ch @ [Some (StageFn fn (length fns))]"
    using Add_free_nonempty[OF free nn, of fn] len by auto
  have l: "length fns - 1 < length fns" "last fns = fns ! (length fns - 1)" "\<not> Suc (length fns - 1) < length fns"
    using ne by (simp_all add: last_conv_nth)
  have d: "(last fns) plan err False w = Next plan' err' w1 k \<longrightarrow>
            invoke (Suc fuel) ch (StageFn (last fns) (length fns - 1)) plan err (w, tr)
              = (Some NilFunctionCall, (w1, tr @ [(length fns - 1, plan, err)]))"
    unfolding l(2) invoke_wired[OF wd l(1)] using l(3) by simp
  from a b c d show ?thesis by blast
qed

theorem C9_unresolved_last_slot_witness:
  "stages free_chain = [] \<and> nexts free_chain = []
   \<and> Adds [pass_stage, pass_stage] free_chain = (None, snd (Adds [pass_stage, pass_stage] free_chain))
   \<and> (1::nat) < length [pass_stage, pass_stage]
   \<and> Add stop_stage (snd (Adds [pass_stage, pass_stage] free_chain))
        = (None, snd (Add stop_stage (snd (Adds [pass_stage, pass_stage] free_chain))))
   \<and> last [pass_stage, pass_stage] () None False 0 = Next () None 1 Return
   \<and> nexts (snd (Adds [pass_stage, pass_stage] free_chain)) ! 0 = Some (StageFn pass_stage 1)
   \<and> nexts (snd (Adds [pass_stage, pass_stage] free_chain)) ! 1 = None
   \<and> nexts (snd (Add stop_stage (snd (Adds [pass_stage, pass_stage] free_chain)))) ! 1
        = Some (StageFn stop_stage 2)
   \<and> invoke 1 (snd (Adds [pass_stage, pass_stage] free_chain)) (StageFn pass_stage 1) () None (0, [])
       = (Some NilFunctionCall, (1, [(1, (), None)]))"
proof -
  let ?ch = "snd (Adds [pass_stage, pass_stage] free_chain)"
  note a = Adds_free_chain[of "[pass_stage, pass_stage]"]
  have "mu ?ch = Some False" using Adds_keeps_mu[OF a] by (simp add: free_chain_simps)
  note b = Add_snd[OF this, of stop_stage]
  have l: "length (nexts ?ch) = 2" using wired_length[OF conjunct1[OF Adds_wired[OF free_chain_simps(1,2) a]]] by simp
  have p: "last [pass_stage, pass_stage] () None False 0 = Next () None 1 Return"
    by (simp add: pass_stage_def)
  note t0 = C9_unresolved_last_slot[OF free_chain_simps(1,2) a, of 0 stop_stage
            "snd (Add stop_stage ?ch)" "()" None 0 "()" None 1 Return 0 "[]"]
  note t1 = C9_unresolved_last_slot[OF free_chain_simps(1,2) a, of 1 stop_stage
            "snd (Add stop_stage ?ch)" "()" None 0 "()" None 1 Return 0 "[]"]
  from t0 t1 have s0: "nexts ?ch ! 0 = Some (StageFn pass_stage 1)" by simp
  from t1 have s1: "nexts ?ch ! 1 = None" by simp
  from t1 b l have s2: "nexts (snd (Add stop_stage ?ch)) ! 1 = Some (StageFn stop_stage 2)"
    by (simp add: nth_append del: Adds.simps)
  from t1 p have s3: "invoke 1 ?ch (StageFn pass_stage 1) () None (0, []) = (Some NilFunctionCall, (1, [(1, (), None)]))"
    by (simp del: Adds.simps invoke.simps)
  from a b p s0 s1 s2 s3 show ?thesis
    by (simp add: free_chain_simps del: Adds.simps invoke.simps)
qed

end
